theory Spec2Isabelle
  imports Main "HOL-Library.Monad_Syntax"
begin

section \<open>Nodes, pointers and the store\<close>

text \<open>
  The tree of \<^verbatim>\<open>rbtree.h\<close> is a graph of heap nodes linked by raw pointers, with
  one heap-allocated sentinel per tree. A pointer is an address or \<^verbatim>\<open>nullptr\<close>
  (\<open>None\<close>); the heap maps the addresses of live objects to their contents. Every
  operation runs in the option monad: the result \<open>None\<close> means that the C++ execution
  has no defined outcome (it reads through a null or dangling pointer, reads the payload
  of the sentinel, which is a bare \<^verbatim>\<open>NodeBase\<close>, or its loop does not terminate).
\<close>

datatype Color = Red | Black

type_synonym addr = nat
type_synonym ptr = "addr option"

record ('k, 'v) NodeBase =
  parent :: ptr
  left :: ptr
  right :: ptr
  color :: Color
  node_value :: "('k \<times> 'v) option"

type_synonym ('k, 'v) heap = "addr \<Rightarrow> ('k, 'v) NodeBase option"

record TreeBase =
  nil :: ptr
  root :: ptr

record RBTree = TreeBase +
  m_size :: nat
  allocator :: nat

definition deref :: "('k, 'v) heap \<Rightarrow> ptr \<Rightarrow> ('k, 'v) NodeBase option" where
  "deref h p = (case p of None \<Rightarrow> None | Some a \<Rightarrow> h a)"

definition store :: "('k, 'v) heap \<Rightarrow> ptr \<Rightarrow> (('k, 'v) NodeBase \<Rightarrow> ('k, 'v) NodeBase)
    \<Rightarrow> ('k, 'v) heap option" where
  "store h p f = (case p of None \<Rightarrow> None
     | Some a \<Rightarrow> (case h a of None \<Rightarrow> None | Some n \<Rightarrow> Some (h(a \<mapsto> f n))))"

definition get_parent :: "('k, 'v) heap \<Rightarrow> ptr \<Rightarrow> ptr option" where
  "get_parent h p = map_option parent (deref h p)"

definition get_left :: "('k, 'v) heap \<Rightarrow> ptr \<Rightarrow> ptr option" where
  "get_left h p = map_option left (deref h p)"

definition get_right :: "('k, 'v) heap \<Rightarrow> ptr \<Rightarrow> ptr option" where
  "get_right h p = map_option right (deref h p)"

definition get_color :: "('k, 'v) heap \<Rightarrow> ptr \<Rightarrow> Color option" where
  "get_color h p = map_option color (deref h p)"

definition get_value :: "('k, 'v) heap \<Rightarrow> ptr \<Rightarrow> ('k \<times> 'v) option" where
  "get_value h p = Option.bind (deref h p) node_value"

definition get_key :: "('k, 'v) heap \<Rightarrow> ptr \<Rightarrow> 'k option" where
  "get_key h p = map_option fst (get_value h p)"

definition set_parent :: "('k, 'v) heap \<Rightarrow> ptr \<Rightarrow> ptr \<Rightarrow> ('k, 'v) heap option" where
  "set_parent h p v = store h p (\<lambda>n. n\<lparr>parent := v\<rparr>)"

definition set_left :: "('k, 'v) heap \<Rightarrow> ptr \<Rightarrow> ptr \<Rightarrow> ('k, 'v) heap option" where
  "set_left h p v = store h p (\<lambda>n. n\<lparr>left := v\<rparr>)"

definition set_right :: "('k, 'v) heap \<Rightarrow> ptr \<Rightarrow> ptr \<Rightarrow> ('k, 'v) heap option" where
  "set_right h p v = store h p (\<lambda>n. n\<lparr>right := v\<rparr>)"

definition set_color :: "('k, 'v) heap \<Rightarrow> ptr \<Rightarrow> Color \<Rightarrow> ('k, 'v) heap option" where
  "set_color h p v = store h p (\<lambda>n. n\<lparr>color := v\<rparr>)"

section \<open>Type-erased node manipulation (namespace detail)\<close>

definition isLeftChild :: "('k, 'v) heap \<Rightarrow> ptr \<Rightarrow> bool option" where
  "isLeftChild h node = do {
     p \<leftarrow> get_parent h node;
     l \<leftarrow> get_left h p;
     Some (node = l)
   }"

definition isRightChild :: "('k, 'v) heap \<Rightarrow> ptr \<Rightarrow> bool option" where
  "isRightChild h node = do {
     p \<leftarrow> get_parent h node;
     r \<leftarrow> get_right h p;
     Some (node = r)
   }"

text \<open>\<^verbatim>\<open>linkTo(tree, node) = v\<close>: the assignment through the reference that
  \<^verbatim>\<open>linkTo\<close> returns.\<close>

definition linkTo_assign :: "'t TreeBase_scheme \<Rightarrow> ('k, 'v) heap \<Rightarrow> ptr \<Rightarrow> ptr
    \<Rightarrow> ('t TreeBase_scheme \<times> ('k, 'v) heap) option" where
  "linkTo_assign tree h node v = do {
     il \<leftarrow> isLeftChild h node;
     if il then do {
       p \<leftarrow> get_parent h node;
       h \<leftarrow> set_left h p v;
       Some (tree, h)
     } else do {
       ir \<leftarrow> isRightChild h node;
       if ir then do {
         p \<leftarrow> get_parent h node;
         h \<leftarrow> set_right h p v;
         Some (tree, h)
       } else Some (tree\<lparr>root := v\<rparr>, h)
     }
   }"

partial_function (option) allLeft :: "('k, 'v) heap \<Rightarrow> ptr \<Rightarrow> ptr option" where
  "allLeft h node = do {
     l \<leftarrow> get_left h node;
     ll \<leftarrow> get_left h l;
     if l \<noteq> ll then allLeft h l else Some node
   }"

text \<open>The climbing loop of \<^verbatim>\<open>successor\<close>; its result \<open>Some None\<close> is the
  \<^verbatim>\<open>nullptr\<close> returned after the loop.\<close>

partial_function (option) successor_climb :: "'t TreeBase_scheme \<Rightarrow> ('k, 'v) heap \<Rightarrow> ptr
    \<Rightarrow> ptr option" where
  "successor_climb tree h node =
     (if node \<noteq> nil tree then do {
        parent \<leftarrow> get_parent h node;
        pl \<leftarrow> get_left h parent;
        if node = pl then Some parent else successor_climb tree h parent
      } else Some None)"

definition successor :: "'t TreeBase_scheme \<Rightarrow> ('k, 'v) heap \<Rightarrow> ptr \<Rightarrow> ptr option" where
  "successor tree h node =
     (if node = nil tree then allLeft h (root tree)
      else do {
        r \<leftarrow> get_right h node;
        if r \<noteq> nil tree then allLeft h r else successor_climb tree h node
      })"

definition leftRotate :: "'t TreeBase_scheme \<Rightarrow> ('k, 'v) heap \<Rightarrow> ptr
    \<Rightarrow> ('t TreeBase_scheme \<times> ('k, 'v) heap) option" where
  "leftRotate tree h x = do {
     y \<leftarrow> get_right h x;
     yl \<leftarrow> get_left h y;
     h \<leftarrow> set_right h x yl;
     xr \<leftarrow> get_right h x;
     h \<leftarrow> set_parent h xr x;
     h \<leftarrow> set_left h y x;
     xp \<leftarrow> get_parent h x;
     h \<leftarrow> set_parent h y xp;
     (tree, h) \<leftarrow> linkTo_assign tree h x y;
     h \<leftarrow> set_parent h x y;
     Some (tree, h)
   }"

definition rightRotate :: "'t TreeBase_scheme \<Rightarrow> ('k, 'v) heap \<Rightarrow> ptr
    \<Rightarrow> ('t TreeBase_scheme \<times> ('k, 'v) heap) option" where
  "rightRotate tree h y = do {
     x \<leftarrow> get_left h y;
     xr \<leftarrow> get_right h x;
     h \<leftarrow> set_left h y xr;
     yl \<leftarrow> get_left h y;
     h \<leftarrow> set_parent h yl y;
     h \<leftarrow> set_right h x y;
     yp \<leftarrow> get_parent h y;
     h \<leftarrow> set_parent h x yp;
     (tree, h) \<leftarrow> linkTo_assign tree h y x;
     h \<leftarrow> set_parent h y x;
     Some (tree, h)
   }"

text \<open>One pass through the body of the loop of \<^verbatim>\<open>insertFixup\<close>, entered when
  \<^verbatim>\<open>parent = node->parent\<close> is red; it returns the tree, the heap and the new
  \<^verbatim>\<open>node\<close>.\<close>

definition insertFixup_body :: "'t TreeBase_scheme \<Rightarrow> ('k, 'v) heap \<Rightarrow> ptr
    \<Rightarrow> ('t TreeBase_scheme \<times> ('k, 'v) heap \<times> ptr) option" where
  "insertFixup_body tree h node = do {
     parent \<leftarrow> get_parent h node;
     pil \<leftarrow> isLeftChild h parent;
     pp \<leftarrow> get_parent h parent;
     uncle \<leftarrow> (if pil then get_right h pp else get_left h pp);
     uc \<leftarrow> get_color h uncle;
     if uc = Red then do {
       h \<leftarrow> set_color h parent Black;
       h \<leftarrow> set_color h uncle Black;
       pp \<leftarrow> get_parent h parent;
       h \<leftarrow> set_color h pp Red;
       pp \<leftarrow> get_parent h parent;
       Some (tree, h, pp)
     } else do {
       pil \<leftarrow> isLeftChild h parent;
       if pil then do {
         nir \<leftarrow> isRightChild h node;
         (tree, h, node, parent) \<leftarrow>
           (if nir then do {
              (tree, h) \<leftarrow> leftRotate tree h parent;
              p \<leftarrow> get_parent h parent;
              Some (tree, h, parent, p)
            } else Some (tree, h, node, parent));
         h \<leftarrow> set_color h parent Black;
         pp \<leftarrow> get_parent h parent;
         h \<leftarrow> set_color h pp Red;
         pp \<leftarrow> get_parent h parent;
         (tree, h) \<leftarrow> rightRotate tree h pp;
         Some (tree, h, node)
       } else do {
         nl \<leftarrow> isLeftChild h node;
         (tree, h, node, parent) \<leftarrow>
           (if nl then do {
              (tree, h) \<leftarrow> rightRotate tree h parent;
              p \<leftarrow> get_parent h parent;
              Some (tree, h, parent, p)
            } else Some (tree, h, node, parent));
         h \<leftarrow> set_color h parent Black;
         pp \<leftarrow> get_parent h parent;
         h \<leftarrow> set_color h pp Red;
         pp \<leftarrow> get_parent h parent;
         (tree, h) \<leftarrow> leftRotate tree h pp;
         Some (tree, h, node)
       }
     }
   }"

partial_function (option) insertFixup :: "'t TreeBase_scheme \<Rightarrow> ('k, 'v) heap \<Rightarrow> ptr
    \<Rightarrow> ('t TreeBase_scheme \<times> ('k, 'v) heap) option" where
  "insertFixup tree h node = do {
     parent \<leftarrow> get_parent h node;
     pc \<leftarrow> get_color h parent;
     if pc = Red then do {
       (tree, h, node) \<leftarrow> insertFixup_body tree h node;
       insertFixup tree h node
     } else do {
       h \<leftarrow> set_color h (root tree) Black;
       Some (tree, h)
     }
   }"

text \<open>One pass through the body of the loop of \<^verbatim>\<open>extractFixup\<close>.\<close>

definition extractFixup_body :: "'t TreeBase_scheme \<Rightarrow> ('k, 'v) heap \<Rightarrow> ptr
    \<Rightarrow> ('t TreeBase_scheme \<times> ('k, 'v) heap \<times> ptr) option" where
  "extractFixup_body tree h node = do {
     parent \<leftarrow> get_parent h node;
     il \<leftarrow> isLeftChild h node;
     if il then do {
       sibling \<leftarrow> get_right h parent;
       sc \<leftarrow> get_color h sibling;
       (tree, h, sibling) \<leftarrow>
         (if sc = Red then do {
            h \<leftarrow> set_color h sibling Black;
            h \<leftarrow> set_color h parent Red;
            (tree, h) \<leftarrow> leftRotate tree h parent;
            s \<leftarrow> get_right h parent;
            Some (tree, h, s)
          } else Some (tree, h, sibling));
       sl \<leftarrow> get_left h sibling;
       slc \<leftarrow> get_color h sl;
       both \<leftarrow> (if slc = Black then do {
                   sr \<leftarrow> get_right h sibling;
                   src \<leftarrow> get_color h sr;
                   Some (src = Black)
                 } else Some False);
       if both then do {
         h \<leftarrow> set_color h sibling Red;
         Some (tree, h, parent)
       } else do {
         sr \<leftarrow> get_right h sibling;
         src \<leftarrow> get_color h sr;
         (tree, h, sibling) \<leftarrow>
           (if src = Black then do {
              sl \<leftarrow> get_left h sibling;
              h \<leftarrow> set_color h sl Black;
              h \<leftarrow> set_color h sibling Red;
              (tree, h) \<leftarrow> rightRotate tree h sibling;
              s \<leftarrow> get_right h parent;
              Some (tree, h, s)
            } else Some (tree, h, sibling));
         pc \<leftarrow> get_color h parent;
         h \<leftarrow> set_color h sibling pc;
         h \<leftarrow> set_color h parent Black;
         sr \<leftarrow> get_right h sibling;
         h \<leftarrow> set_color h sr Black;
         (tree, h) \<leftarrow> leftRotate tree h parent;
         Some (tree, h, root tree)
       }
     } else do {
       sibling \<leftarrow> get_left h parent;
       sc \<leftarrow> get_color h sibling;
       (tree, h, sibling) \<leftarrow>
         (if sc = Red then do {
            h \<leftarrow> set_color h sibling Black;
            h \<leftarrow> set_color h parent Red;
            (tree, h) \<leftarrow> rightRotate tree h parent;
            s \<leftarrow> get_left h parent;
            Some (tree, h, s)
          } else Some (tree, h, sibling));
       sr \<leftarrow> get_right h sibling;
       src \<leftarrow> get_color h sr;
       both \<leftarrow> (if src = Black then do {
                   sl \<leftarrow> get_left h sibling;
                   slc \<leftarrow> get_color h sl;
                   Some (slc = Black)
                 } else Some False);
       if both then do {
         h \<leftarrow> set_color h sibling Red;
         Some (tree, h, parent)
       } else do {
         sl \<leftarrow> get_left h sibling;
         slc \<leftarrow> get_color h sl;
         (tree, h, sibling) \<leftarrow>
           (if slc = Black then do {
              sr \<leftarrow> get_right h sibling;
              h \<leftarrow> set_color h sr Black;
              h \<leftarrow> set_color h sibling Red;
              (tree, h) \<leftarrow> leftRotate tree h sibling;
              s \<leftarrow> get_left h parent;
              Some (tree, h, s)
            } else Some (tree, h, sibling));
         pc \<leftarrow> get_color h parent;
         h \<leftarrow> set_color h sibling pc;
         h \<leftarrow> set_color h parent Black;
         sl \<leftarrow> get_left h sibling;
         h \<leftarrow> set_color h sl Black;
         (tree, h) \<leftarrow> rightRotate tree h parent;
         Some (tree, h, root tree)
       }
     }
   }"

partial_function (option) extractFixup :: "'t TreeBase_scheme \<Rightarrow> ('k, 'v) heap \<Rightarrow> ptr
    \<Rightarrow> ('t TreeBase_scheme \<times> ('k, 'v) heap) option" where
  "extractFixup tree h node = do {
     parent \<leftarrow> get_parent h node;
     c \<leftarrow> get_color h node;
     if node \<noteq> root tree \<and> c = Black then do {
       (tree, h, node) \<leftarrow> extractFixup_body tree h node;
       extractFixup tree h node
     } else do {
       h \<leftarrow> set_color h node Black;
       Some (tree, h)
     }
   }"

definition extractNode :: "'t TreeBase_scheme \<Rightarrow> ('k, 'v) heap \<Rightarrow> ptr
    \<Rightarrow> ('t TreeBase_scheme \<times> ('k, 'v) heap) option" where
  "extractNode tree h node = do {
     nl \<leftarrow> get_left h node;
     nr \<leftarrow> get_right h node;
     (h, replacement, fixupRoot) \<leftarrow>
       (if nl \<noteq> nil tree \<and> nr \<noteq> nil tree then do {
          replacement \<leftarrow> allLeft h nr;
          h \<leftarrow> (if replacement = nr then do {
                  rr \<leftarrow> get_right h replacement;
                  h \<leftarrow> set_right h node rr;
                  nr' \<leftarrow> get_right h node;
                  set_parent h nr' node
                } else do {
                  rp \<leftarrow> get_parent h replacement;
                  rr \<leftarrow> get_right h replacement;
                  h \<leftarrow> set_left h rp rr;
                  rp \<leftarrow> get_parent h replacement;
                  rpl \<leftarrow> get_left h rp;
                  set_parent h rpl rp
                });
          rc \<leftarrow> get_color h replacement;
          rr \<leftarrow> get_right h replacement;
          fixupRoot \<leftarrow> Some (if rc = Black then rr else None);
          nl \<leftarrow> get_left h node;
          h \<leftarrow> set_left h replacement nl;
          nr \<leftarrow> get_right h node;
          h \<leftarrow> set_right h replacement nr;
          rr \<leftarrow> get_right h replacement;
          h \<leftarrow> set_parent h rr replacement;
          rl \<leftarrow> get_left h replacement;
          h \<leftarrow> set_parent h rl replacement;
          Some (h, replacement, fixupRoot)
        } else if nl \<noteq> nil tree then do {
          nc \<leftarrow> get_color h node;
          Some (h, nl, if nc = Black then nl else None)
        } else if nr \<noteq> nil tree then do {
          nc \<leftarrow> get_color h node;
          Some (h, nr, if nc = Black then nr else None)
        } else do {
          nc \<leftarrow> get_color h node;
          Some (h, nil tree, if nc = Black then nil tree else None)
        });
     (tree, h) \<leftarrow> linkTo_assign tree h node replacement;
     np \<leftarrow> get_parent h node;
     h \<leftarrow> set_parent h replacement np;
     nc \<leftarrow> get_color h node;
     h \<leftarrow> set_color h replacement nc;
     if fixupRoot \<noteq> None then extractFixup tree h fixupRoot else Some (tree, h)
   }"

text \<open>The loop of \<^verbatim>\<open>findNode\<close> on its two variables \<^verbatim>\<open>node\<close> and
  \<^verbatim>\<open>next\<close>.\<close>

partial_function (option) findNode_loop :: "('k \<Rightarrow> 'k \<Rightarrow> bool) \<Rightarrow> 't TreeBase_scheme
    \<Rightarrow> ('k, 'v) heap \<Rightarrow> 'k \<Rightarrow> ptr \<Rightarrow> ptr \<Rightarrow> ptr option" where
  "findNode_loop cmp tree h key node next =
     (if next \<noteq> nil tree then do {
        k \<leftarrow> get_key h next;
        if cmp key k then do {
          l \<leftarrow> get_left h next;
          findNode_loop cmp tree h key next l
        } else if cmp k key then do {
          r \<leftarrow> get_right h next;
          findNode_loop cmp tree h key next r
        } else findNode_loop cmp tree h key next (nil tree)
      } else Some node)"

definition findNode :: "('k \<Rightarrow> 'k \<Rightarrow> bool) \<Rightarrow> 't TreeBase_scheme \<Rightarrow> ('k, 'v) heap \<Rightarrow> 'k
    \<Rightarrow> ptr option" where
  "findNode cmp tree h key = findNode_loop cmp tree h key (root tree) (root tree)"

section \<open>The allocator and the store of the whole program\<close>

text \<open>
  The node allocator is a template parameter. It is modelled after the test suite's
  \<^verbatim>\<open>counting_allocator\<close>: an allocator value is the identity of the pair of counters
  it points to (two allocators compare equal when they point to the same counters), and
  \<^verbatim>\<open>allocate\<close> and \<^verbatim>\<open>deallocate\<close> each bump a counter (of type
  \<^verbatim>\<open>unsigned\<close>) and obtain or release storage. Storage is never exhausted and
  \<^verbatim>\<open>operator new\<close> returns an address that was never handed out before.
\<close>

record ('k, 'v) world =
  heap :: "('k, 'v) heap"
  fresh :: addr
  allocations :: "nat \<Rightarrow> nat"
  deallocations :: "nat \<Rightarrow> nat"

definition allocate :: "('k, 'v) world \<Rightarrow> nat \<Rightarrow> ('k, 'v) world \<times> addr" where
  "allocate w alloc =
     (w\<lparr>fresh := Suc (fresh w),
        allocations := (allocations w)(alloc := (allocations w alloc + 1) mod 2 ^ 32)\<rparr>,
      fresh w)"

definition deallocate :: "('k, 'v) world \<Rightarrow> nat \<Rightarrow> addr \<Rightarrow> ('k, 'v) world" where
  "deallocate w alloc a =
     w\<lparr>heap := (heap w)(a := None),
       deallocations := (deallocations w)(alloc := (deallocations w alloc + 1) mod 2 ^ 32)\<rparr>"

section \<open>The container\<close>

datatype error = KeyNotFound

text \<open>\<^verbatim>\<open>size_type\<close> is \<^verbatim>\<open>std::size_t\<close>: 64 bits, arithmetic modulo \<open>2 ^ 64\<close>.\<close>

definition size_max :: nat where
  "size_max = 2 ^ 64"

text \<open>\<^verbatim>\<open>RBTreeData::createNil\<close> and \<^verbatim>\<open>destroyNil\<close>.\<close>

definition createNil :: "('k, 'v) world \<Rightarrow> RBTree \<Rightarrow> ('k, 'v) world \<times> RBTree \<times> ptr" where
  "createNil w t =
     (let (w, a) = allocate w (allocator t);
          n = \<lparr>parent = None, left = Some a, right = Some a, color = Black, node_value = None\<rparr>
      in (w\<lparr>heap := (heap w)(a \<mapsto> n)\<rparr>, t\<lparr>nil := Some a\<rparr>, Some a))"

definition destroyNil :: "('k, 'v) world \<Rightarrow> RBTree \<Rightarrow> ('k, 'v) world" where
  "destroyNil w t = (case nil t of None \<Rightarrow> w | Some a \<Rightarrow> deallocate w (allocator t) a)"

text \<open>\<^verbatim>\<open>buildNode\<close> allocates and constructs a node (red, with null links by the
  default member initialisers) and points its children at the sentinel.\<close>

definition buildNode :: "('k, 'v) world \<Rightarrow> RBTree \<Rightarrow> 'k \<times> 'v \<Rightarrow> ('k, 'v) world \<times> ptr" where
  "buildNode w t kv =
     (let (w, a) = allocate w (allocator t);
          n = \<lparr>parent = None, left = nil t, right = nil t, color = Red, node_value = Some kv\<rparr>
      in (w\<lparr>heap := (heap w)(a \<mapsto> n)\<rparr>, Some a))"

definition destroyNode :: "('k, 'v) world \<Rightarrow> RBTree \<Rightarrow> ptr \<Rightarrow> ('k, 'v) world option" where
  "destroyNode w t node = do {
     n \<leftarrow> deref (heap w) node;
     a \<leftarrow> node;
     Some (deallocate w (allocator t) a)
   }"

text \<open>The constructors \<^verbatim>\<open>RBTree(const Allocator &)\<close> and
  \<^verbatim>\<open>RBTree(RBTree &&)\<close>. A tree object starts with the default member
  initialisers \<^verbatim>\<open>nil = nullptr\<close>, \<^verbatim>\<open>root = nullptr\<close>, \<^verbatim>\<open>m_size = 0\<close>.\<close>

definition RBTree_init :: "nat \<Rightarrow> RBTree" where
  "RBTree_init alloc = \<lparr>nil = None, root = None, m_size = 0, allocator = alloc\<rparr>"

definition RBTree_new :: "('k, 'v) world \<Rightarrow> nat \<Rightarrow> ('k, 'v) world \<times> RBTree" where
  "RBTree_new w alloc =
     (let (w, t, n) = createNil w (RBTree_init alloc) in (w, t\<lparr>root := n\<rparr>))"

text \<open>Move construction returns the new tree and the moved-from tree.\<close>

definition RBTree_move :: "RBTree \<Rightarrow> RBTree \<times> RBTree" where
  "RBTree_move other =
     (let this = RBTree_init (allocator other);
          (this, other) = (this\<lparr>nil := nil other\<rparr>, other\<lparr>nil := nil this\<rparr>);
          (this, other) = (this\<lparr>root := root other\<rparr>, other\<lparr>root := root this\<rparr>);
          (this, other) = (this\<lparr>m_size := m_size other\<rparr>, other\<lparr>m_size := m_size this\<rparr>)
      in (this, other))"

definition tree_size :: "RBTree \<Rightarrow> nat" where
  "tree_size t = m_size t"

definition tree_empty :: "RBTree \<Rightarrow> bool" where
  "tree_empty t = (m_size t = 0)"

text \<open>An iterator is compared by its node pointer only; \<^verbatim>\<open>end()\<close> holds
  \<^verbatim>\<open>nullptr\<close>.\<close>

definition tree_begin :: "('k, 'v) world \<Rightarrow> RBTree \<Rightarrow> ptr option" where
  "tree_begin w t = allLeft (heap w) (root t)"

definition tree_end :: "RBTree \<Rightarrow> ptr" where
  "tree_end t = None"

text \<open>\<^verbatim>\<open>at\<close> returns a reference to the mapped value, modelled as the node that holds
  it together with the value read through it, or throws \<^verbatim>\<open>std::out_of_range\<close>.\<close>

definition at_key :: "('k \<Rightarrow> 'k \<Rightarrow> bool) \<Rightarrow> ('k, 'v) world \<Rightarrow> RBTree \<Rightarrow> 'k
    \<Rightarrow> (error + ptr \<times> 'v) option" where
  "at_key cmp w t key = do {
     node \<leftarrow> findNode cmp t (heap w) key;
     found \<leftarrow> (if node \<noteq> nil t then do { k \<leftarrow> get_key (heap w) node; Some (key = k) }
               else Some False);
     if found then do {
       kv \<leftarrow> get_value (heap w) node;
       Some (Inr (node, snd kv))
     } else Some (Inl KeyNotFound)
   }"

text \<open>The part that \<^verbatim>\<open>insert\<close> and \<^verbatim>\<open>operator[]\<close> share after
  \<^verbatim>\<open>buildNode\<close>: linking the new node below \<^verbatim>\<open>node\<close>, the fixup and the
  size.\<close>

definition attach :: "('k \<Rightarrow> 'k \<Rightarrow> bool) \<Rightarrow> ('k, 'v) world \<Rightarrow> RBTree \<Rightarrow> ptr \<Rightarrow> ptr \<Rightarrow> 'k
    \<Rightarrow> (('k, 'v) world \<times> RBTree) option" where
  "attach cmp w t node newNode key = do {
     h \<leftarrow> set_parent (heap w) newNode node;
     (t, h) \<leftarrow>
       (if node = nil t then Some (t\<lparr>root := newNode\<rparr>, h)
        else do {
          k \<leftarrow> get_key h node;
          h \<leftarrow> (if cmp key k then set_left h node newNode else set_right h node newNode);
          Some (t, h)
        });
     (t, h) \<leftarrow> insertFixup t h newNode;
     Some (w\<lparr>heap := h\<rparr>, t\<lparr>m_size := (m_size t + 1) mod size_max\<rparr>)
   }"

definition insert_kv :: "('k \<Rightarrow> 'k \<Rightarrow> bool) \<Rightarrow> ('k, 'v) world \<Rightarrow> RBTree \<Rightarrow> 'k \<times> 'v
    \<Rightarrow> (('k, 'v) world \<times> RBTree \<times> ptr \<times> bool) option" where
  "insert_kv cmp w t v = do {
     node \<leftarrow> findNode cmp t (heap w) (fst v);
     found \<leftarrow> (if node \<noteq> nil t then do { k \<leftarrow> get_key (heap w) node; Some (fst v = k) }
               else Some False);
     if found then Some (w, t, node, False)
     else do {
       (w, newNode) \<leftarrow> Some (buildNode w t v);
       (w, t) \<leftarrow> attach cmp w t node newNode (fst v);
       Some (w, t, newNode, True)
     }
   }"

text \<open>\<^verbatim>\<open>operator[]\<close>; \<open>dflt\<close> is the value-initialised \<^verbatim>\<open>T{}\<close>. The result is
  the node whose mapped value the returned reference denotes.\<close>

definition index_key :: "('k \<Rightarrow> 'k \<Rightarrow> bool) \<Rightarrow> 'v \<Rightarrow> ('k, 'v) world \<Rightarrow> RBTree \<Rightarrow> 'k
    \<Rightarrow> (('k, 'v) world \<times> RBTree \<times> ptr) option" where
  "index_key cmp dflt w t key = do {
     node \<leftarrow> findNode cmp t (heap w) key;
     found \<leftarrow> (if node \<noteq> nil t then do { k \<leftarrow> get_key (heap w) node; Some (key = k) }
               else Some False);
     if found then Some (w, t, node)
     else do {
       (w, newNode) \<leftarrow> Some (buildNode w t (key, dflt));
       (w, t) \<leftarrow> attach cmp w t node newNode key;
       Some (w, t, newNode)
     }
   }"

text \<open>Assignment through the reference returned by \<^verbatim>\<open>operator[]\<close> or
  \<^verbatim>\<open>at\<close>.\<close>

definition assign_ref :: "('k, 'v) world \<Rightarrow> ptr \<Rightarrow> 'v \<Rightarrow> ('k, 'v) world option" where
  "assign_ref w node v = do {
     kv \<leftarrow> get_value (heap w) node;
     h \<leftarrow> store (heap w) node (\<lambda>n. n\<lparr>node_value := Some (fst kv, v)\<rparr>);
     Some (w\<lparr>heap := h\<rparr>)
   }"

definition find_key :: "('k \<Rightarrow> 'k \<Rightarrow> bool) \<Rightarrow> ('k, 'v) world \<Rightarrow> RBTree \<Rightarrow> 'k \<Rightarrow> ptr option" where
  "find_key cmp w t key =
     (if root t = nil t then Some None
      else do {
        node \<leftarrow> findNode cmp t (heap w) key;
        absent \<leftarrow> (if node = nil t then Some True
                   else do { k \<leftarrow> get_key (heap w) node; Some (key \<noteq> k) });
        if absent then Some None else Some node
      })"

definition erase_it :: "('k, 'v) world \<Rightarrow> RBTree \<Rightarrow> ptr \<Rightarrow> (('k, 'v) world \<times> RBTree) option" where
  "erase_it w t it = do {
     (t, h) \<leftarrow> extractNode t (heap w) it;
     w \<leftarrow> destroyNode (w\<lparr>heap := h\<rparr>) t it;
     Some (w, t\<lparr>m_size := (m_size t + size_max - 1) mod size_max\<rparr>)
   }"

definition erase_key :: "('k \<Rightarrow> 'k \<Rightarrow> bool) \<Rightarrow> ('k, 'v) world \<Rightarrow> RBTree \<Rightarrow> 'k
    \<Rightarrow> (('k, 'v) world \<times> RBTree) option" where
  "erase_key cmp w t key = do {
     it \<leftarrow> find_key cmp w t key;
     if it \<noteq> tree_end t then erase_it w t it else Some (w, t)
   }"

text \<open>The traversal \<^verbatim>\<open>for (it = first; it != last; ++it)\<close> of a client (a range-based
  \<^verbatim>\<open>for\<close>, \<^verbatim>\<open>std::distance\<close>); it returns the nodes visited.\<close>

partial_function (option) iterate :: "'t TreeBase_scheme \<Rightarrow> ('k, 'v) heap \<Rightarrow> ptr \<Rightarrow> ptr
    \<Rightarrow> ptr list option" where
  "iterate tree h first last' =
     (if first \<noteq> last' then do {
        next \<leftarrow> successor tree h first;
        rest \<leftarrow> iterate tree h next last';
        Some (first # rest)
      } else Some [])"

text \<open>\<^verbatim>\<open>insert(Iterator first, Iterator last)\<close> on iterators of the tree \<open>src\<close>.\<close>

partial_function (option) insert_range :: "('k \<Rightarrow> 'k \<Rightarrow> bool) \<Rightarrow> ('k, 'v) world \<Rightarrow> RBTree
    \<Rightarrow> RBTree \<Rightarrow> ptr \<Rightarrow> ptr \<Rightarrow> (('k, 'v) world \<times> RBTree) option" where
  "insert_range cmp w t src first last' =
     (if first \<noteq> last' then do {
        v \<leftarrow> get_value (heap w) first;
        (w, t, it, inserted) \<leftarrow> insert_kv cmp w t v;
        next \<leftarrow> successor src (heap w) first;
        insert_range cmp w t src next last'
      } else Some (w, t))"

text \<open>Copy construction: the allocator is
  \<^verbatim>\<open>select_on_container_copy_construction\<close> of the other tree's allocator, which
  for the counting allocator is a copy of it.\<close>

definition RBTree_copy :: "('k \<Rightarrow> 'k \<Rightarrow> bool) \<Rightarrow> ('k, 'v) world \<Rightarrow> RBTree
    \<Rightarrow> (('k, 'v) world \<times> RBTree) option" where
  "RBTree_copy cmp w other =
     (let (w, t, n) = createNil w (RBTree_init (allocator other)); t = t\<lparr>root := n\<rparr>
      in do {
        first \<leftarrow> tree_begin w other;
        insert_range cmp w t other first (tree_end other)
      })"

text \<open>\<^verbatim>\<open>clear\<close>: the inner \<^verbatim>\<open>while\<close> loop, the \<^verbatim>\<open>do ... while\<close> loop and the
  outer loop.\<close>

partial_function (option) clear_down :: "RBTree \<Rightarrow> ('k, 'v) heap \<Rightarrow> ptr \<Rightarrow> ptr option" where
  "clear_down t h node = do {
     r \<leftarrow> get_right h node;
     if r \<noteq> nil t then do {
       n \<leftarrow> allLeft h r;
       clear_down t h n
     } else Some node
   }"

partial_function (option) clear_up :: "('k, 'v) world \<Rightarrow> RBTree \<Rightarrow> ptr
    \<Rightarrow> (('k, 'v) world \<times> ptr) option" where
  "clear_up w t node = do {
     leaf \<leftarrow> Some node;
     node \<leftarrow> get_parent (heap w) node;
     w \<leftarrow> destroyNode w t leaf;
     r \<leftarrow> get_right (heap w) node;
     if leaf = r then clear_up w t node else Some (w, node)
   }"

partial_function (option) clear_loop :: "('k, 'v) world \<Rightarrow> RBTree \<Rightarrow> ptr
    \<Rightarrow> ('k, 'v) world option" where
  "clear_loop w t node =
     (if node \<noteq> nil t then do {
        node \<leftarrow> clear_down t (heap w) node;
        (w, node) \<leftarrow> clear_up w t node;
        clear_loop w t node
      } else Some w)"

definition clear :: "('k, 'v) world \<Rightarrow> RBTree \<Rightarrow> (('k, 'v) world \<times> RBTree) option" where
  "clear w t = do {
     node \<leftarrow> allLeft (heap w) (root t);
     w \<leftarrow> clear_loop w t node;
     Some (w, t\<lparr>root := nil t, m_size := 0\<rparr>)
   }"

text \<open>The destructor \<^verbatim>\<open>~RBTree\<close>.\<close>

definition RBTree_destroy :: "('k, 'v) world \<Rightarrow> RBTree \<Rightarrow> ('k, 'v) world option" where
  "RBTree_destroy w t = do {
     (w, t) \<leftarrow> (if root t \<noteq> None then clear w t else Some (w, t));
     Some (destroyNil w t)
   }"

text \<open>\<^verbatim>\<open>operator==\<close> with the loop of \<^verbatim>\<open>std::equal\<close> over the two trees'
  iterators.\<close>

partial_function (option) std_equal :: "('k, 'v) heap \<Rightarrow> RBTree \<Rightarrow> RBTree \<Rightarrow> ptr \<Rightarrow> ptr \<Rightarrow> ptr
    \<Rightarrow> bool option" where
  "std_equal h lhs rhs first1 last1 first2 =
     (if first1 \<noteq> last1 then do {
        v1 \<leftarrow> get_value h first1;
        v2 \<leftarrow> get_value h first2;
        if v1 \<noteq> v2 then Some False
        else do {
          next1 \<leftarrow> successor lhs h first1;
          next2 \<leftarrow> successor rhs h first2;
          std_equal h lhs rhs next1 last1 next2
        }
      } else Some True)"

definition tree_eq :: "('k, 'v) world \<Rightarrow> RBTree \<Rightarrow> RBTree \<Rightarrow> bool option" where
  "tree_eq w lhs rhs =
     (if allocator lhs = allocator rhs \<and> m_size lhs = m_size rhs then do {
        first1 \<leftarrow> tree_begin w lhs;
        first2 \<leftarrow> tree_begin w rhs;
        std_equal (heap w) lhs rhs first1 (tree_end lhs) first2
      } else Some False)"

section \<open>Sequences of public operations\<close>

datatype ('k, 'v) operation = Insert 'k 'v | Erase 'k

fun apply_operation :: "('k \<Rightarrow> 'k \<Rightarrow> bool) \<Rightarrow> ('k, 'v) world \<times> RBTree \<Rightarrow> ('k, 'v) operation
    \<Rightarrow> (('k, 'v) world \<times> RBTree) option" where
  "apply_operation cmp (w, t) (Insert k v) =
     map_option (\<lambda>(w, t, it, inserted). (w, t)) (insert_kv cmp w t (k, v))"
| "apply_operation cmp (w, t) (Erase k) = erase_key cmp w t k"

fun run :: "('k \<Rightarrow> 'k \<Rightarrow> bool) \<Rightarrow> ('k, 'v) world \<times> RBTree \<Rightarrow> ('k, 'v) operation list
    \<Rightarrow> (('k, 'v) world \<times> RBTree) option" where
  "run cmp s [] = Some s"
| "run cmp s (x # xs) = Option.bind (apply_operation cmp s x) (\<lambda>s. run cmp s xs)"

definition empty_world :: "('k, 'v) world" where
  "empty_world = \<lparr>heap = Map.empty, fresh = 0, allocations = (\<lambda>_. 0), deallocations = (\<lambda>_. 0)\<rparr>"

section \<open>The shape of a tree in the heap and the invariants\<close>

text \<open>
  A shape is the binary tree of the addresses of the nodes. \<open>repr h nl par p s\<close> says that
  the pointer \<open>p\<close> in the heap \<open>h\<close> is the root of a subtree of shape \<open>s\<close> whose leaves
  are the sentinel \<open>nl\<close> and whose root has the parent link \<open>par\<close>; every node of it is
  a live payload node whose parent link points to its parent.
\<close>

datatype shape = Tip | Fork shape addr shape

fun repr :: "('k, 'v) heap \<Rightarrow> ptr \<Rightarrow> ptr \<Rightarrow> ptr \<Rightarrow> shape \<Rightarrow> bool" where
  "repr h nl par p Tip = (p = nl)"
| "repr h nl par p (Fork l a r) =
     (p = Some a \<and> p \<noteq> nl \<and>
      (case h a of None \<Rightarrow> False
       | Some n \<Rightarrow> parent n = par \<and> node_value n \<noteq> None \<and>
           repr h nl p (left n) l \<and> repr h nl p (right n) r))"

fun inorder :: "shape \<Rightarrow> addr list" where
  "inorder Tip = []"
| "inorder (Fork l a r) = inorder l @ a # inorder r"

definition key_of :: "('k, 'v) heap \<Rightarrow> addr \<Rightarrow> 'k" where
  "key_of h a = fst (the (node_value (the (h a))))"

definition entry_of :: "('k, 'v) heap \<Rightarrow> addr \<Rightarrow> 'k \<times> 'v" where
  "entry_of h a = the (node_value (the (h a)))"

definition color_of :: "('k, 'v) heap \<Rightarrow> addr \<Rightarrow> Color" where
  "color_of h a = color (the (h a))"

text \<open>I1: the keys in in-order position are strictly increasing under the comparator.\<close>

definition I1 :: "('k \<Rightarrow> 'k \<Rightarrow> bool) \<Rightarrow> ('k, 'v) heap \<Rightarrow> shape \<Rightarrow> bool" where
  "I1 cmp h s = sorted_wrt cmp (map (key_of h) (inorder s))"

text \<open>I2: no red node has a red parent.\<close>

fun red_root :: "('k, 'v) heap \<Rightarrow> shape \<Rightarrow> bool" where
  "red_root h Tip = False"
| "red_root h (Fork l a r) = (color_of h a = Red)"

fun I2 :: "('k, 'v) heap \<Rightarrow> shape \<Rightarrow> bool" where
  "I2 h Tip = True"
| "I2 h (Fork l a r) =
     (\<not> (color_of h a = Red \<and> (red_root h l \<or> red_root h r)) \<and> I2 h l \<and> I2 h r)"

text \<open>I3: every path from the root to the sentinel has the same number of black nodes.
  \<open>black_height\<close> is that number, \<open>None\<close> when two paths differ.\<close>

fun black_height :: "('k, 'v) heap \<Rightarrow> shape \<Rightarrow> nat option" where
  "black_height h Tip = Some 0"
| "black_height h (Fork l a r) =
     (case (black_height h l, black_height h r) of
        (Some m, Some n) \<Rightarrow>
          if m = n then Some (m + (if color_of h a = Black then 1 else 0)) else None
      | _ \<Rightarrow> None)"

definition I3 :: "('k, 'v) heap \<Rightarrow> shape \<Rightarrow> bool" where
  "I3 h s = (black_height h s \<noteq> None)"

lemmas heap_defs = deref_def store_def get_parent_def get_left_def get_right_def get_color_def
  get_value_def get_key_def set_parent_def set_left_def set_right_def set_color_def

lemmas detail_defs = isLeftChild_def isRightChild_def linkTo_assign_def successor_def
  leftRotate_def rightRotate_def insertFixup_body_def extractFixup_body_def extractNode_def
  findNode_def

lemmas loop_simps = allLeft.simps successor_climb.simps insertFixup.simps extractFixup.simps
  findNode_loop.simps iterate.simps insert_range.simps clear_down.simps clear_up.simps
  clear_loop.simps std_equal.simps

lemmas container_defs = allocate_def deallocate_def size_max_def createNil_def destroyNil_def
  buildNode_def destroyNode_def RBTree_init_def RBTree_new_def RBTree_move_def tree_size_def
  tree_empty_def tree_begin_def tree_end_def at_key_def attach_def insert_kv_def index_key_def
  assign_ref_def find_key_def erase_it_def erase_key_def empty_world_def RBTree_copy_def
  clear_def RBTree_destroy_def tree_eq_def

text \<open>The sentinel of the tree is live and its child links point to itself, as
  \<^verbatim>\<open>createNil\<close> leaves them.\<close>

definition sentinel_ok :: "'t TreeBase_scheme \<Rightarrow> ('k, 'v) heap \<Rightarrow> bool" where
  "sentinel_ok tree h =
     (case nil tree of None \<Rightarrow> False
      | Some z \<Rightarrow> map_option left (h z) = Some (Some z) \<and> map_option right (h z) = Some (Some z))"

text \<open>A well-formed tree: the links from the root form the shape \<open>s\<close> with the sentinel at
  the leaves and above the root, no node occurs twice, and the keys are in order (I1).\<close>

definition well_formed :: "('k \<Rightarrow> 'k \<Rightarrow> bool) \<Rightarrow> 't TreeBase_scheme \<Rightarrow> ('k, 'v) heap \<Rightarrow> shape
    \<Rightarrow> bool" where
  "well_formed cmp tree h s =
     (sentinel_ok tree h \<and> repr h (nil tree) (nil tree) (root tree) s \<and>
      distinct (inorder s) \<and> I1 cmp h s)"

text \<open>The node at which the descent of \<^verbatim>\<open>findNode\<close> through the shape \<open>s\<close> stops;
  \<open>node\<close> is the last node visited before \<open>s\<close> is entered.\<close>

fun descend :: "('k \<Rightarrow> 'k \<Rightarrow> bool) \<Rightarrow> ('k, 'v) heap \<Rightarrow> 'k \<Rightarrow> ptr \<Rightarrow> shape \<Rightarrow> ptr" where
  "descend cmp h key node Tip = node"
| "descend cmp h key node (Fork l a r) =
     (if cmp key (key_of h a) then descend cmp h key (Some a) l
      else if cmp (key_of h a) key then descend cmp h key (Some a) r
      else Some a)"

text \<open>The in-order successor in a shape, in the words of the specification: the leftmost
  node of the right subtree when there is one, otherwise the nearest ancestor that has the
  node in its left subtree, \<open>anc\<close>; for the whole tree \<open>anc\<close> is \<^verbatim>\<open>nullptr\<close>.
  \<open>leftmost s anc\<close> is the leftmost node of \<open>s\<close>, or \<open>anc\<close> when \<open>s\<close> is empty;
  \<open>next_node s anc x\<close> is \<open>None\<close> when \<open>x\<close> does not occur in \<open>s\<close>.\<close>

fun leftmost :: "shape \<Rightarrow> ptr \<Rightarrow> ptr" where
  "leftmost Tip anc = anc"
| "leftmost (Fork l a r) anc = leftmost l (Some a)"

fun next_node :: "shape \<Rightarrow> ptr \<Rightarrow> addr \<Rightarrow> ptr option" where
  "next_node Tip anc x = None"
| "next_node (Fork l a r) anc x =
     (if x = a then Some (leftmost r anc)
      else (case next_node l (Some a) x of Some q \<Rightarrow> Some q | None \<Rightarrow> next_node r anc x))"

section \<open>Observations on states and the test scenarios\<close>

definition allocation_count :: "nat \<Rightarrow> ('k, 'v) world \<times> RBTree \<Rightarrow> nat" where
  "allocation_count alloc s = allocations (fst s) alloc"

definition has_shape :: "shape \<Rightarrow> ('k, 'v) world \<times> RBTree \<Rightarrow> bool" where
  "has_shape s st = repr (heap (fst st)) (nil (snd st)) (nil (snd st)) (root (snd st)) s"

definition invariants :: "('k \<Rightarrow> 'k \<Rightarrow> bool) \<Rightarrow> shape \<Rightarrow> ('k, 'v) world \<times> RBTree \<Rightarrow> bool" where
  "invariants cmp s st =
     (has_shape s st \<and> I1 cmp (heap (fst st)) s \<and> I2 (heap (fst st)) s \<and> I3 (heap (fst st)) s)"

definition equal_black_counts :: "shape \<Rightarrow> ('k, 'v) world \<times> RBTree \<Rightarrow> bool" where
  "equal_black_counts s st = I3 (heap (fst st)) s"

text \<open>The body of \<^verbatim>\<open>TEST(RBTree, basic_allocator)\<close> with the values its expectations
  inspect: size and allocations after the insertions, the comparison and the allocations
  after the copy, the size of the moved-from tree, the comparison and the allocations after
  the move, and both counters after the three destructors.\<close>

definition basic_allocator :: "(nat \<times> nat \<times> bool \<times> nat \<times> nat \<times> bool \<times> nat \<times> nat \<times> nat) option"
  where
  "basic_allocator = do {
     (w, tree) \<leftarrow> Some (RBTree_new (empty_world :: (int, string) world) 1);
     (w, tree, r) \<leftarrow> index_key (<) [] w tree 1;
     w \<leftarrow> assign_ref w r ''hello1'';
     (w, tree, r) \<leftarrow> index_key (<) [] w tree 2;
     w \<leftarrow> assign_ref w r ''hello2'';
     (w, tree, r) \<leftarrow> index_key (<) [] w tree 3;
     w \<leftarrow> assign_ref w r ''hello3'';
     (w, tree, r) \<leftarrow> index_key (<) [] w tree 4;
     w \<leftarrow> assign_ref w r ''hello4'';
     (w, tree, r) \<leftarrow> index_key (<) [] w tree 1;
     w \<leftarrow> assign_ref w r ''replaced'';
     size1 \<leftarrow> Some (tree_size tree);
     allocations1 \<leftarrow> Some (allocations w 1);
     (w, treeB) \<leftarrow> RBTree_copy (<) w tree;
     eq1 \<leftarrow> tree_eq w tree treeB;
     allocations2 \<leftarrow> Some (allocations w 1);
     (treeC, tree) \<leftarrow> Some (RBTree_move tree);
     size2 \<leftarrow> Some (tree_size tree);
     eq2 \<leftarrow> tree_eq w treeB treeC;
     allocations3 \<leftarrow> Some (allocations w 1);
     w \<leftarrow> RBTree_destroy w treeC;
     w \<leftarrow> RBTree_destroy w treeB;
     w \<leftarrow> RBTree_destroy w tree;
     Some (size1, allocations1, eq1, allocations2, size2, eq2, allocations3,
       allocations w 1, deallocations w 1)
   }"

text \<open>A freshly constructed tree, and two of them that share an allocator.\<close>

definition fresh_tree :: "(int, string) world \<times> RBTree" where
  "fresh_tree = RBTree_new empty_world 1"

definition two_fresh_trees :: "(int, string) world \<times> RBTree \<times> RBTree" where
  "two_fresh_trees =
     (let (w, a) = RBTree_new empty_world 1; (w, b) = RBTree_new w 1 in (w, a, b))"

text \<open>A comparator whose equivalence is coarser than equality: it orders by tens.\<close>

definition by_tens :: "nat \<Rightarrow> nat \<Rightarrow> bool" where
  "by_tens a b = (a div 10 < b div 10)"

definition fresh_tree_by_tens :: "(nat, string) world \<times> RBTree" where
  "fresh_tree_by_tens = RBTree_new empty_world 1"

definition one_entry_by_tens :: "(nat, string) world \<times> RBTree" where
  "one_entry_by_tens = the (run by_tens fresh_tree_by_tens [Insert 1 ''a''])"

text \<open>The tree after inserting 2, 1 and 3: the root 2 at address 1 with the children 1 at
  address 2 and 3 at address 3.\<close>

definition three_entries :: "(int, string) world \<times> RBTree" where
  "three_entries =
     the (run (<) fresh_tree [Insert 2 ''two'', Insert 1 ''one'', Insert 3 ''three''])"

definition three_entries_shape :: shape where
  "three_entries_shape = Fork (Fork Tip 2 Tip) 1 (Fork Tip 3 Tip)"

definition tree_size_of :: "('k, 'v) world \<times> RBTree \<Rightarrow> nat" where
  "tree_size_of st = tree_size (snd st)"

definition entries_in_order :: "shape \<Rightarrow> ('k, 'v) world \<times> RBTree \<Rightarrow> ('k \<times> 'v) list" where
  "entries_in_order s st = map (entry_of (heap (fst st))) (inorder s)"

text \<open>The descent of \<^verbatim>\<open>findNode\<close> for \<open>key\<close> stops at the payload node \<open>p\<close>,
  and the key stored there is equal to \<open>key\<close>.\<close>

definition stops_at_equal :: "('k \<Rightarrow> 'k \<Rightarrow> bool) \<Rightarrow> ('k, 'v) world \<Rightarrow> RBTree \<Rightarrow> 'k \<Rightarrow> ptr
    \<Rightarrow> bool" where
  "stops_at_equal cmp w t key p =
     (findNode cmp t (heap w) key = Some p \<and> p \<noteq> nil t \<and> get_key (heap w) p = Some key)"

text \<open>The tree is empty: the root is the sentinel at address \<open>a\<close>, whose left link
  points to itself.\<close>

definition empty_at :: "'t TreeBase_scheme \<Rightarrow> ('k, 'v) heap \<Rightarrow> addr \<Rightarrow> bool" where
  "empty_at tree h a =
     (root tree = nil tree \<and> nil tree = Some a \<and> map_option left (h a) = Some (Some a))"

lemmas scenario_defs = sentinel_ok_def well_formed_def allocation_count_def has_shape_def invariants_def equal_black_counts_def
  fresh_tree_def two_fresh_trees_def by_tens_def fresh_tree_by_tens_def tree_size_of_def
  one_entry_by_tens_def three_entries_def three_entries_shape_def
  entries_in_order_def I1_def I3_def key_of_def
  entry_of_def color_of_def

lemmas eval_simps = heap_defs detail_defs loop_simps container_defs scenario_defs Let_def

section \<open>Facts about the shape\<close>

lemma repr_unique: "repr h nl par p s \<Longrightarrow> repr h nl par p s' \<Longrightarrow> s = s'"
proof (induction s arbitrary: par p s')
  case Tip
  then show ?case by (cases s') auto
next
  case (Fork l a r)
  from Fork.prems obtain l' r' where s': "s' = Fork l' a r'"
    by (cases s') auto
  from Fork.prems obtain n where n: "h a = Some n"
    by (auto split: option.splits)
  from Fork.prems s' n have "repr h nl p (left n) l" "repr h nl p (left n) l'"
    "repr h nl p (right n) r" "repr h nl p (right n) r'"
    by auto
  with Fork.IH s' show ?case by blast
qed

text \<open>On an empty tree the traversal from the sentinel never reaches \<^verbatim>\<open>nullptr\<close>: the
  successor of the sentinel is the sentinel again.\<close>

lemma successor_sentinel:
  assumes "empty_at tree h a"
  shows "successor tree h (Some a) = Some (Some a)"
proof -
  have "allLeft h (Some a) = Some (Some a)"
    using assms by (subst allLeft.simps) (auto simp: heap_defs empty_at_def)
  then show ?thesis
    using assms by (simp add: successor_def empty_at_def)
qed

lemma iterate_sentinel_aux:
  "iterate tree h first l = Some ys \<Longrightarrow> \<not> (empty_at tree h a \<and> first = Some a \<and> l = None)"
proof (rule iterate.raw_induct [where
      P = "\<lambda>tree h first l ys. \<not> (empty_at tree h a \<and> first = Some a \<and> l = None)"
      and tree = tree and h = h and first = first and last' = l and y = ys])
  fix it :: "'a TreeBase_scheme \<Rightarrow> ('b, 'c) heap \<Rightarrow> ptr \<Rightarrow> ptr \<Rightarrow> ptr list option"
  fix tree :: "'a TreeBase_scheme" and h :: "('b, 'c) heap" and first l ys
  assume IH: "\<And>tree h first l ys. it tree h first l = Some ys
    \<Longrightarrow> \<not> (empty_at tree h a \<and> first = Some a \<and> l = None)"
  assume step: "(if first \<noteq> l
    then successor tree h first \<bind> (\<lambda>next. it tree h next l \<bind> (\<lambda>rest. Some (first # rest)))
    else Some []) = Some ys"
  show "\<not> (empty_at tree h a \<and> first = Some a \<and> l = None)"
  proof
    assume A: "empty_at tree h a \<and> first = Some a \<and> l = None"
    with step successor_sentinel [of tree h a]
    obtain rest where "it tree h (Some a) None = Some rest"
      by (auto simp: bind_eq_Some_conv)
    from IH [OF this] A show False by simp
  qed
qed

lemma iterate_sentinel_diverges:
  assumes "empty_at tree h a"
  shows "iterate tree h (Some a) None = None"
proof (cases "iterate tree h (Some a) None")
  case None
  then show ?thesis .
next
  case (Some ys)
  from iterate_sentinel_aux [OF this, of a] assms show ?thesis
    by simp
qed

section \<open>The descent of findNode in a well-formed tree\<close>

lemma repr_node:
  assumes "repr h nl par p s" and "a \<in> set (inorder s)"
  shows "Some a \<noteq> nl \<and> (\<exists>n. h a = Some n \<and> node_value n \<noteq> None)"
  using assms
proof (induction s arbitrary: par p)
  case Tip
  then show ?case by simp
next
  case (Fork l b r)
  from Fork.prems(1) obtain n where n: "h b = Some n" "node_value n \<noteq> None" "Some b \<noteq> nl"
    "repr h nl p (left n) l" "repr h nl p (right n) r"
    by (auto split: option.splits)
  from Fork.prems(2) consider "a = b" | "a \<in> set (inorder l)" | "a \<in> set (inorder r)"
    by auto
  then show ?case
  proof cases
    case 1
    with n show ?thesis by simp
  next
    case 2
    from Fork.IH(1)[OF n(4) 2] show ?thesis .
  next
    case 3
    from Fork.IH(2)[OF n(5) 3] show ?thesis .
  qed
qed

lemma get_key_node:
  assumes "h a = Some n" and "node_value n \<noteq> None"
  shows "get_key h (Some a) = Some (key_of h a)"
    and "get_value h (Some a) = Some (entry_of h a)"
  using assms by (auto simp: heap_defs key_of_def entry_of_def)

lemma findNode_loop_descend:
  assumes "repr h (nil tree) par p s"
  shows "findNode_loop cmp tree h key node p = Some (descend cmp h key node s)"
  using assms
proof (induction s arbitrary: par p node)
  case Tip
  then show ?case
    by (subst findNode_loop.simps) simp
next
  case (Fork l a r)
  from Fork.prems obtain n where n: "h a = Some n" "node_value n \<noteq> None" "p = Some a"
    "p \<noteq> nil tree" "repr h (nil tree) p (left n) l" "repr h (nil tree) p (right n) r"
    by (auto split: option.splits)
  have k: "get_key h p = Some (key_of h a)"
    using get_key_node(1)[of h a n] n(1,2,3) by simp
  have lr: "get_left h p = Some (left n)" "get_right h p = Some (right n)"
    using n(1,3) by (simp_all add: heap_defs)
  have stop: "findNode_loop cmp tree h key p (nil tree) = Some p"
    by (subst findNode_loop.simps) simp
  show ?case
    apply (subst findNode_loop.simps)
    using n(3,4) k lr stop Fork.IH(1)[OF n(5), of p] Fork.IH(2)[OF n(6), of p]
    apply simp
    done
qed


lemma descend_absent:
  "(s = Tip \<and> descend cmp h key node s = node) \<or>
   (\<exists>b \<in> set (inorder s). descend cmp h key node s = Some b)"
proof (induction s arbitrary: node)
  case Tip
  then show ?case by simp
next
  case (Fork l a r)
  from Fork.IH(1)[of "Some a"] Fork.IH(2)[of "Some a"] show ?case
    by auto
qed

lemma descend_present:
  assumes "asymp cmp" and "sorted_wrt cmp (map (key_of h) (inorder s))"
    and "a \<in> set (inorder s)"
  shows "descend cmp h (key_of h a) node s = Some a"
  using assms(2,3)
proof (induction s arbitrary: node)
  case Tip
  then show ?case by simp
next
  case (Fork l b r)
  from Fork.prems(1) have sl: "sorted_wrt cmp (map (key_of h) (inorder l))"
    and sr: "sorted_wrt cmp (map (key_of h) (inorder r))"
    and lb: "\<forall>x \<in> set (inorder l). cmp (key_of h x) (key_of h b)"
    and br: "\<forall>y \<in> set (inorder r). cmp (key_of h b) (key_of h y)"
    by (auto simp: sorted_wrt_append)
  from assms(1) have irr: "\<not> cmp x x" and asym: "cmp x y \<Longrightarrow> \<not> cmp y x" for x y
    by (auto dest: asympD)
  from Fork.prems(2) consider "a = b" | "a \<in> set (inorder l)" | "a \<in> set (inorder r)"
    by auto
  then show ?case
  proof cases
    case 1
    then show ?thesis by (simp add: irr)
  next
    case 2
    with lb have "cmp (key_of h a) (key_of h b)" by simp
    with Fork.IH(1)[OF sl 2] show ?thesis by simp
  next
    case 3
    with br have "cmp (key_of h b) (key_of h a)" by simp
    with asym[OF this] Fork.IH(2)[OF sr 3] show ?thesis by simp
  qed
qed

lemma sorted_keys_inj:
  assumes "asymp cmp" and "sorted_wrt cmp (map (key_of h) (inorder s))"
    and "a \<in> set (inorder s)" and "b \<in> set (inorder s)" and "key_of h a = key_of h b"
  shows "a = b"
proof -
  have "Some a = descend cmp h (key_of h a) None s"
    by (rule descend_present[OF assms(1,2,3), symmetric])
  also have "\<dots> = descend cmp h (key_of h b) None s"
    by (simp only: assms(5))
  also have "\<dots> = Some b"
    by (rule descend_present[OF assms(1,2,4)])
  finally show ?thesis by simp
qed

lemma findNode_well_formed:
  assumes "well_formed cmp t h s"
  shows "findNode cmp t h key = Some (descend cmp h key (root t) s)"
  using assms findNode_loop_descend[of h t "nil t" "root t" s cmp key "root t"]
  by (simp add: findNode_def well_formed_def)

lemma at_key_present:
  assumes "asymp cmp" and "well_formed cmp t (heap w) s" and "a \<in> set (inorder s)"
  shows "at_key cmp w t (key_of (heap w) a) = Some (Inr (Some a, snd (entry_of (heap w) a)))"
proof -
  from assms(2) have r: "repr (heap w) (nil t) (nil t) (root t) s"
    and srt: "sorted_wrt cmp (map (key_of (heap w)) (inorder s))"
    by (simp_all add: well_formed_def I1_def)
  from repr_node[OF r assms(3)] obtain n where n: "Some a \<noteq> nil t" "heap w a = Some n"
    "node_value n \<noteq> None"
    by auto
  have f: "findNode cmp t (heap w) (key_of (heap w) a) = Some (Some a)"
    using findNode_well_formed[OF assms(2)] descend_present[OF assms(1) srt assms(3)] by simp
  show ?thesis
    using f n(1) get_key_node[of "heap w" a n] n(2,3)
    by (simp add: at_key_def)
qed

lemma at_key_absent:
  assumes "well_formed cmp t (heap w) s" and "key \<notin> set (map (key_of (heap w)) (inorder s))"
  shows "at_key cmp w t key = Some (Inl KeyNotFound)"
proof -
  from assms(1) have r: "repr (heap w) (nil t) (nil t) (root t) s"
    by (simp add: well_formed_def)
  have f: "findNode cmp t (heap w) key = Some (descend cmp (heap w) key (root t) s)"
    by (rule findNode_well_formed[OF assms(1)])
  from descend_absent[where s = s and cmp = cmp and h = "heap w" and key = key and node = "root t"]
  consider "descend cmp (heap w) key (root t) s = root t" "s = Tip"
    | b where "b \<in> set (inorder s)" "descend cmp (heap w) key (root t) s = Some b"
    by blast
  then show ?thesis
  proof cases
    case 1
    with r have "descend cmp (heap w) key (root t) s = nil t" by simp
    with f show ?thesis by (simp add: at_key_def)
  next
    case 2
    from repr_node[OF r 2(1)] obtain n where n: "Some b \<noteq> nil t" "heap w b = Some n"
      "node_value n \<noteq> None"
      by auto
    from 2(1) assms(2) have "key \<noteq> key_of (heap w) b" by auto
    with f 2(2) n(1) get_key_node(1)[of "heap w" b n] n(2,3) show ?thesis
      by (simp add: at_key_def)
  qed
qed

section \<open>The in-order successor in a well-formed tree\<close>

lemma sentinel_left:
  assumes "sentinel_ok tree h"
  shows "get_left h (nil tree) = Some (nil tree)"
  using assms by (auto simp: sentinel_ok_def heap_defs split: option.splits)

lemma repr_Fork_fields:
  assumes "repr h nl par p (Fork l a r)"
  obtains n where "p = Some a" "Some a \<noteq> nl" "h a = Some n" "parent n = par"
    "node_value n \<noteq> None" "repr h nl (Some a) (left n) l" "repr h nl (Some a) (right n) r"
  using assms by (auto split: option.splits)

lemma repr_root_cases:
  assumes "repr h nl par p s"
  shows "(s = Tip \<and> p = nl) \<or> (\<exists>l a r. s = Fork l a r \<and> p = Some a \<and> Some a \<noteq> nl)"
  using assms by (cases s) auto

lemma allLeft_leftmost:
  assumes "get_left h nl = Some nl" and "repr h nl par p (Fork l a r)"
    and "distinct (inorder (Fork l a r))"
  shows "allLeft h p = Some (leftmost l (Some a))"
  using assms(2,3)
proof (induction l arbitrary: par p a r)
  case Tip
  from Tip.prems(1) obtain n where n: "p = Some a" "h a = Some n" "repr h nl (Some a) (left n) Tip"
    by (rule repr_Fork_fields)
  then have "get_left h p = Some nl"
    by (simp add: heap_defs)
  with assms(1) n(1) show ?case
    by (subst allLeft.simps) simp
next
  case (Fork l1 b l2)
  from Fork.prems(1) obtain n where n: "p = Some a" "h a = Some n"
    "repr h nl (Some a) (left n) (Fork l1 b l2)"
    by (rule repr_Fork_fields)
  from n(3) obtain m where m: "left n = Some b" "Some b \<noteq> nl" "h b = Some m"
    "repr h nl (Some b) (left m) l1"
    by (rule repr_Fork_fields)
  from Fork.prems(2) have d: "distinct (inorder (Fork l1 b l2))" and "b \<notin> set (inorder l1)"
    by auto
  with repr_root_cases[OF m(4)] m(2) have ne: "Some b \<noteq> left m"
    by auto
  have "get_left h p = Some (Some b)" "get_left h (Some b) = Some (left m)"
    using n m by (simp_all add: heap_defs)
  with ne Fork.IH(1)[OF n(3)[unfolded m(1)] d] show ?case
    by (subst allLeft.simps) simp
qed

lemma next_node_None:
  "x \<notin> set (inorder s) \<Longrightarrow> next_node s anc x = None"
  by (induction s arbitrary: anc) auto

lemma next_node_Some:
  "x \<in> set (inorder s) \<Longrightarrow> \<exists>q. next_node s anc x = Some q"
proof (induction s arbitrary: anc)
  case Tip
  then show ?case by simp
next
  case (Fork l b r)
  show ?case
  proof (cases "x = b")
    case True
    then show ?thesis by simp
  next
    case False
    show ?thesis
    proof (cases "x \<in> set (inorder l)")
      case True
      from Fork.IH(1)[OF this, of "Some b"] False show ?thesis by auto
    next
      case False
      with Fork.prems \<open>x \<noteq> b\<close> have "x \<in> set (inorder r)" by simp
      from Fork.IH(2)[OF this, of anc] \<open>x \<noteq> b\<close> next_node_None[OF False, of "Some b"]
      show ?thesis by auto
    qed
  qed
qed

lemma successor_climb_left_child:
  assumes "h c = Some m" and "parent m = Some b" and "h b = Some n" and "left n = Some c"
    and "Some c \<noteq> nil tree"
  shows "successor_climb tree h (Some c) = Some (Some b)"
  using assms by (subst successor_climb.simps) (simp add: heap_defs)

lemma successor_climb_right_child:
  assumes "h c = Some m" and "parent m = Some b" and "h b = Some n" and "left n \<noteq> Some c"
    and "Some c \<noteq> nil tree"
  shows "successor_climb tree h (Some c) = successor_climb tree h (Some b)"
  using assms by (subst successor_climb.simps) (simp add: heap_defs)

lemma successor_next_node:
  assumes "get_left h (nil tree) = Some (nil tree)"
    and "repr h (nil tree) par p s" and "distinct (inorder s)" and "x \<in> set (inorder s)"
    and "successor_climb tree h p = Some anc"
  shows "successor tree h (Some x) = next_node s anc x"
  using assms(2-)
proof (induction s arbitrary: par p anc)
  case Tip
  then show ?case by simp
next
  case (Fork l b r)
  from Fork.prems(1) obtain n where n: "p = Some b" "Some b \<noteq> nil tree" "h b = Some n"
    "repr h (nil tree) (Some b) (left n) l" "repr h (nil tree) (Some b) (right n) r"
    by (rule repr_Fork_fields)
  from Fork.prems(2) have dl: "distinct (inorder l)" and dr: "distinct (inorder r)"
    and bl: "b \<notin> set (inorder l)" and br: "b \<notin> set (inorder r)"
    and lr: "set (inorder l) \<inter> set (inorder r) = {}"
    by auto
  from Fork.prems(3) consider "x = b" | "x \<noteq> b" "x \<in> set (inorder l)"
    | "x \<noteq> b" "x \<notin> set (inorder l)" "x \<in> set (inorder r)"
    by auto
  then show ?case
  proof cases
    case 1
    have gr: "get_right h (Some b) = Some (right n)"
      using n(3) by (simp add: heap_defs)
    show ?thesis
    proof (cases r)
      case Tip
      with n(5) have "right n = nil tree" by simp
      with 1 gr n(1,2) Fork.prems(4) Tip show ?thesis
        by (simp add: successor_def)
    next
      case (Fork r1 c r2)
      with n(5) have rn: "right n = Some c" "Some c \<noteq> nil tree"
        by (auto split: option.splits)
      from allLeft_leftmost[OF assms(1) n(5)[unfolded Fork] dr[unfolded Fork]] rn(1)
      have "allLeft h (right n) = Some (leftmost r1 (Some c))" by simp
      with 1 gr n(2) rn Fork show ?thesis
        by (simp add: successor_def)
    qed
  next
    case 2
    then obtain l1 c l2 where l: "l = Fork l1 c l2"
      by (cases l) auto
    from n(4)[unfolded l] obtain m where m: "left n = Some c" "Some c \<noteq> nil tree" "h c = Some m"
      "parent m = Some b"
      by (rule repr_Fork_fields)
    have "successor_climb tree h (left n) = Some (Some b)"
      using successor_climb_left_child[OF m(3,4) n(3) m(1) m(2)] m(1) by simp
    from Fork.IH(1)[OF n(4) dl 2(2) this]
    have "successor tree h (Some x) = next_node l (Some b) x" .
    with next_node_Some[OF 2(2), of "Some b"] 2(1) show ?thesis
      by auto
  next
    case 3
    then obtain r1 c r2 where r: "r = Fork r1 c r2"
      by (cases r) auto
    from n(5)[unfolded r] obtain m where m: "right n = Some c" "Some c \<noteq> nil tree" "h c = Some m"
      "parent m = Some b"
      by (rule repr_Fork_fields)
    have c: "c \<in> set (inorder r)" using r by simp
    with lr have "c \<notin> set (inorder l)" by auto
    with repr_root_cases[OF n(4)] m(2) have "left n \<noteq> Some c"
      by auto
    from successor_climb_right_child[OF m(3,4) n(3) this m(2)] Fork.prems(4) n(1) m(1)
    have "successor_climb tree h (right n) = Some anc" by simp
    from Fork.IH(2)[OF n(5) dr 3(3) this] next_node_None[OF 3(2), of "Some b"] 3(1)
    show ?thesis by simp
  qed
qed

lemma leftmost_inorder:
  "leftmost s anc = (case inorder s of [] \<Rightarrow> anc | y # ys \<Rightarrow> Some y)"
proof (induction s arbitrary: anc)
  case Tip
  then show ?case by simp
next
  case (Fork l a r)
  then show ?case by (cases "inorder l") auto
qed

lemma distinct_split_unique:
  assumes "distinct (xs @ x # ys)" and "xs @ x # ys = xs' @ x # ys'"
  shows "xs = xs' \<and> ys = ys'"
  using assms
proof (induction xs arbitrary: xs')
  case Nil
  show ?case
  proof (cases xs')
    case Nil
    with Nil.prems show ?thesis by simp
  next
    case (Cons z zs)
    with Nil.prems have "x = z" "ys = zs @ x # ys'" by simp_all
    with Nil.prems(1) show ?thesis by simp
  qed
next
  case (Cons a as)
  from Cons.prems(1) have ax: "a \<noteq> x" and d: "distinct (as @ x # ys)"
    by auto
  show ?case
  proof (cases xs')
    case Nil
    with Cons.prems(2) ax show ?thesis by simp
  next
    case (Cons z zs)
    with Cons.prems(2) have "a = z" "as @ x # ys = zs @ x # ys'" by simp_all
    with Cons.IH[OF d this(2)] Cons show ?thesis by simp
  qed
qed

lemma next_node_inorder:
  assumes "distinct (inorder s)" and "inorder s = xs @ x # ys"
  shows "next_node s anc x = Some (case ys of [] \<Rightarrow> anc | y # zs \<Rightarrow> Some y)"
  using assms
proof (induction s arbitrary: anc xs ys)
  case Tip
  then show ?case by simp
next
  case (Fork l b r)
  from Fork.prems(1) have dl: "distinct (inorder l)" and dr: "distinct (inorder r)"
    and bl: "b \<notin> set (inorder l)" and br: "b \<notin> set (inorder r)"
    and lr: "set (inorder l) \<inter> set (inorder r) = {}"
    by auto
  have dxy: "distinct (xs @ x # ys)"
    using Fork.prems(1) unfolding Fork.prems(2) .
  have xin: "x \<in> set (inorder (Fork l b r))"
    unfolding Fork.prems(2) by simp
  then consider "x = b" | "x \<noteq> b" "x \<in> set (inorder l)"
    | "x \<noteq> b" "x \<notin> set (inorder l)" "x \<in> set (inorder r)"
    by auto
  then show ?case
  proof cases
    case 1
    have e: "xs @ x # ys = inorder l @ x # inorder r"
      using Fork.prems(2) 1 by simp
    have "ys = inorder r"
      using distinct_split_unique[OF dxy e] by simp
    with 1 show ?thesis
      by (simp add: leftmost_inorder)
  next
    case 2
    then obtain us vs where l: "inorder l = us @ x # vs"
      by (auto simp: in_set_conv_decomp)
    have e: "xs @ x # ys = us @ x # (vs @ b # inorder r)"
      using Fork.prems(2) l by simp
    have ys: "ys = vs @ b # inorder r"
      using distinct_split_unique[OF dxy e] by simp
    from Fork.IH(1)[OF dl l, of "Some b"] 2(1) ys show ?thesis
      by (cases vs) simp_all
  next
    case 3
    then obtain us vs where r: "inorder r = us @ x # vs"
      by (auto simp: in_set_conv_decomp)
    have e: "xs @ x # ys = (inorder l @ b # us) @ x # vs"
      using Fork.prems(2) r by simp
    have ys: "ys = vs"
      using distinct_split_unique[OF dxy e] by simp
    from Fork.IH(2)[OF dr r, of anc] next_node_None[OF 3(2), of "Some b"] 3(1) ys show ?thesis
      by simp
  qed
qed

lemma successor_climb_root:
  assumes "sentinel_ok tree h" and "repr h (nil tree) (nil tree) (root tree) s"
  shows "successor_climb tree h (root tree) = Some None"
proof (cases s)
  case Tip
  with assms(2) show ?thesis
    by (subst successor_climb.simps) simp
next
  case (Fork l a r)
  from assms(2)[unfolded Fork] obtain n where n: "root tree = Some a" "Some a \<noteq> nil tree"
    "h a = Some n" "parent n = nil tree"
    by (rule repr_Fork_fields)
  have "successor_climb tree h (nil tree) = Some None"
    by (subst successor_climb.simps) simp
  moreover have "get_parent h (Some a) = Some (nil tree)"
    using n by (simp add: heap_defs)
  ultimately show ?thesis
    using n(1,2) sentinel_left[OF assms(1)]
    by (subst successor_climb.simps) auto
qed

lemma successor_in_order:
  assumes "well_formed cmp tree h s" and "inorder s = xs @ x # ys"
  shows "successor tree h (Some x) = Some (case ys of [] \<Rightarrow> None | y # zs \<Rightarrow> Some y)"
proof -
  from assms(1) have s: "sentinel_ok tree h" and r: "repr h (nil tree) (nil tree) (root tree) s"
    and d: "distinct (inorder s)"
    by (simp_all add: well_formed_def)
  have x: "x \<in> set (inorder s)"
    using assms(2) by simp
  from successor_next_node[OF sentinel_left[OF s] r d x successor_climb_root[OF s r]]
    next_node_inorder[OF d assms(2), of None]
  show ?thesis by simp
qed

lemma tree_begin_first:
  assumes "well_formed cmp tree h s" and "inorder s = x # ys"
  shows "allLeft h (root tree) = Some (Some x)"
proof -
  from assms(1) have s: "sentinel_ok tree h" and r: "repr h (nil tree) (nil tree) (root tree) s"
    and d: "distinct (inorder s)"
    by (simp_all add: well_formed_def)
  from assms(2) obtain l a r' where f: "s = Fork l a r'"
    by (cases s) auto
  from allLeft_leftmost[OF sentinel_left[OF s] r[unfolded f] d[unfolded f]]
    leftmost_inorder[of s None] f assms(2)
  show ?thesis by simp
qed

lemma iterate_in_order:
  assumes "well_formed cmp tree h s" and "inorder s = xs @ x # ys"
  shows "iterate tree h (Some x) None = Some (map Some (x # ys))"
  using assms(2)
proof (induction ys arbitrary: xs x)
  case Nil
  have "iterate tree h None None = Some []"
    by (subst iterate.simps) simp
  with successor_in_order[OF assms(1) Nil] show ?case
    by (subst iterate.simps) simp
next
  case (Cons y ys)
  then have "inorder s = (xs @ [x]) @ y # ys" by simp
  from Cons.IH[OF this] successor_in_order[OF assms(1) Cons.prems] show ?case
    by (subst iterate.simps) simp
qed

section \<open>Membership is decided by equality at the node where the descent stops\<close>

lemma at_key_decided:
  "(\<exists>v. at_key cmp w t k = Some (Inr (p, v))) = stops_at_equal cmp w t k p"
  by (auto simp: at_key_def stops_at_equal_def get_key_def bind_eq_Some_conv split: if_splits)

lemma find_key_decided:
  "(find_key cmp w t k = Some (Some a)) = stops_at_equal cmp w t k (Some a)"
  apply (auto simp: find_key_def stops_at_equal_def bind_eq_Some_conv split: if_splits)
  apply (subst (asm) findNode_def)
  apply (subst (asm) findNode_loop.simps)
  apply simp
  done

lemma insert_kv_decided:
  "(\<exists>w' t'. insert_kv cmp w t (k, v) = Some (w', t', p, False)) = stops_at_equal cmp w t k p"
  by (auto simp: insert_kv_def stops_at_equal_def bind_eq_Some_conv split: if_splits prod.splits)

lemma attach_fresh:
  assumes "attach cmp w t node newNode key = Some (w', t')"
  shows "fresh w' = fresh w"
proof -
  from assms obtain h' where "w' = w\<lparr>heap := h'\<rparr>"
    unfolding attach_def by (auto simp: bind_eq_Some_conv split: prod.splits)
  then show ?thesis by simp
qed

lemma index_key_existing:
  assumes "stops_at_equal cmp w t k p"
  shows "index_key cmp d w t k = Some (w, t, p)"
  using assms by (simp add: index_key_def stops_at_equal_def)

lemma index_key_no_allocation:
  assumes "index_key cmp d w t k = Some (w', t', p)" and "fresh w' = fresh w"
  shows "stops_at_equal cmp w t k p"
proof -
  from assms(1) obtain node found where node: "findNode cmp t (heap w) k = Some node"
    and found: "(if node \<noteq> nil t then get_key (heap w) node \<bind> (\<lambda>k'. Some (k = k'))
        else Some False) = Some found"
    and rest: "(if found then Some (w, t, node)
       else Some (buildNode w t (k, d)) \<bind>
         (\<lambda>(w, newNode). attach cmp w t node newNode k \<bind> (\<lambda>(w, t). Some (w, t, newNode))))
       = Some (w', t', p)"
    unfolding index_key_def by (auto simp: bind_eq_Some_conv)
  show ?thesis
  proof (cases found)
    case True
    with rest have "p = node" by simp
    with True found node show ?thesis
      by (auto simp: stops_at_equal_def bind_eq_Some_conv split: if_splits)
  next
    case False
    with rest obtain w1 newNode where b: "buildNode w t (k, d) = (w1, newNode)"
      and a: "attach cmp w1 t node newNode k = Some (w', t')"
      by (auto simp: bind_eq_Some_conv split: prod.splits)
    from b have "fresh w1 = Suc (fresh w)"
      by (auto simp: buildNode_def allocate_def Let_def)
    with attach_fresh [OF a] assms(2) show ?thesis by simp
  qed
qed

section \<open>The claims\<close>

text \<open>
  C1 (the red-black invariants after every insert or erase). The code breaks the claim.
  After inserting the keys 1, 2, 3, 4 into an empty tree, the tree has the shape
  \<open>(1) 2 (3 (4))\<close> and satisfies I1, I2 and I3. Erasing 3, a black node with the single
  red child 4, leaves the shape \<open>(1) 2 (4)\<close> with node 1 recoloured red and node 4 black,
  so that the paths through 1 carry one black node and the paths through 4 carry two:
  I3 fails. \<^verbatim>\<open>extractNode\<close> copies the erased node's colour onto the replacement before
  it calls \<^verbatim>\<open>extractFixup\<close> on it, which then rebalances a tree that was balanced.
\<close>

theorem erase_single_child_breaks_black_height:
  "map_option (invariants (<) (Fork (Fork Tip 1 Tip) 2 (Fork Tip 3 (Fork Tip 4 Tip))))
     (run (<) fresh_tree [Insert 1 ''1'', Insert 2 ''2'', Insert 3 ''3'', Insert 4 ''4''])
     = Some True \<and>
   map_option (has_shape (Fork (Fork Tip 1 Tip) 2 (Fork Tip 4 Tip)))
     (run (<) fresh_tree [Insert 1 ''1'', Insert 2 ''2'', Insert 3 ''3'', Insert 4 ''4'', Erase 3])
     = Some True \<and>
   map_option (equal_black_counts (Fork (Fork Tip 1 Tip) 2 (Fork Tip 4 Tip)))
     (run (<) fresh_tree [Insert 1 ''1'', Insert 2 ''2'', Insert 3 ''3'', Insert 4 ''4'', Erase 3])
     = Some False"
  by (simp add: eval_simps)

text \<open>
  C2 (size equals the number of entries between \<^verbatim>\<open>begin()\<close> and \<^verbatim>\<open>end()\<close>; on the
  empty tree \<^verbatim>\<open>begin()\<close> equals \<^verbatim>\<open>end()\<close>). The code breaks the claim on the freshly
  constructed tree: its size is 0, \<^verbatim>\<open>begin()\<close> holds the sentinel (address 0) while
  \<^verbatim>\<open>end()\<close> holds \<^verbatim>\<open>nullptr\<close>, and the traversal from \<^verbatim>\<open>begin()\<close> to
  \<^verbatim>\<open>end()\<close> has no result, since the successor of the sentinel is the sentinel.
\<close>

theorem empty_tree_begin_is_not_end:
  "tree_size (snd fresh_tree) = 0 \<and>
   tree_begin (fst fresh_tree) (snd fresh_tree) = Some (Some 0) \<and>
   tree_end (snd fresh_tree) = None \<and>
   successor (snd fresh_tree) (heap (fst fresh_tree)) (Some 0) = Some (Some 0) \<and>
   iterate (snd fresh_tree) (heap (fst fresh_tree)) (Some 0) (tree_end (snd fresh_tree)) = None"
proof -
  have "empty_at (snd fresh_tree) (heap (fst fresh_tree)) 0"
    by (simp add: empty_at_def eval_simps)
  then have "iterate (snd fresh_tree) (heap (fst fresh_tree)) (Some 0) None = None"
    by (rule iterate_sentinel_diverges)
  then have diverges:
    "iterate (snd fresh_tree) (heap (fst fresh_tree)) (Some 0) (tree_end (snd fresh_tree)) = None"
    by (simp add: tree_end_def)
  have "tree_size (snd fresh_tree) = 0"
    and "tree_begin (fst fresh_tree) (snd fresh_tree) = Some (Some 0)"
    and "tree_end (snd fresh_tree) = None"
    and "successor (snd fresh_tree) (heap (fst fresh_tree)) (Some 0) = Some (Some 0)"
    by (simp_all add: heap_defs detail_defs allLeft.simps container_defs scenario_defs Let_def)
  with diverges show ?thesis
    by blast
qed

text \<open>
  C3 (the moved-from tree keeps a fresh, non-null sentinel and can be inserted into).
  Counterexample: moving from a freshly constructed tree leaves the source with a null
  sentinel, and an insertion into it has no defined result.
\<close>

theorem moved_from_sentinel_is_null:
  "nil (snd (RBTree_move (snd fresh_tree))) = None \<and>
   insert_kv (<) (fst fresh_tree) (snd (RBTree_move (snd fresh_tree))) (1, ''1'') = None"
  by (simp add: eval_simps)

text \<open>
  C3 as amended: move construction hands the sentinel, the root and the size of the source
  to the new tree and leaves the source with a null sentinel, a null root and size 0, so
  that it satisfies \<^verbatim>\<open>empty()\<close> and \<^verbatim>\<open>size() == 0\<close>; no sentinel is allocated for
  it, and an insertion into it has no defined result in any store, for any comparator and
  any entry.
\<close>

theorem move_construct_leaves_null_sentinel:
  "nil (snd (RBTree_move other)) = None \<and>
   root (snd (RBTree_move other)) = None \<and>
   tree_empty (snd (RBTree_move other)) \<and>
   tree_size (snd (RBTree_move other)) = 0 \<and>
   nil (fst (RBTree_move other)) = nil other \<and>
   root (fst (RBTree_move other)) = root other \<and>
   tree_size (fst (RBTree_move other)) = tree_size other \<and>
   allocator (fst (RBTree_move other)) = allocator other \<and>
   insert_kv cmp w (snd (RBTree_move other)) v = None"
  by (simp add: eval_simps)

text \<open>
  C4 (the allocator scenario, with 4 allocations for 4 insertions). Counterexample:
  constructing a tree and inserting four elements makes five allocations, the first one
  for the sentinel.
\<close>

theorem four_inserts_make_five_allocations:
  "map_option (allocation_count 1)
     (run (<) fresh_tree [Insert 1 ''hello1'', Insert 2 ''hello2'', Insert 3 ''hello3'',
        Insert 4 ''hello4'']) = Some 5"
  by (simp add: eval_simps)

text \<open>
  C4 as amended, on the test \<^verbatim>\<open>basic_allocator\<close>: after construction and four insertions
  the size is 4 and the allocator has made 5 allocations (the sentinel and four nodes);
  copy construction doubles them to 10 and the copy compares equal; move construction adds
  none, leaves the source with size 0 and the new tree equal to the copy; after the three
  destructors the allocations and the deallocations are both 10.
\<close>

theorem allocator_scenario:
  "basic_allocator = Some (4, 5, True, 10, 0, True, 10, 10, 10)"
  by (simp add: basic_allocator_def eval_simps)

text \<open>
  C8 (equality is allocator equality, size equality and pairwise equal entries). The code
  breaks the claim on two freshly constructed trees that share an allocator: the
  allocators and the sizes are equal and there are no entries, but \<^verbatim>\<open>operator==\<close> has
  no defined result, since \<^verbatim>\<open>cbegin()\<close> differs from \<^verbatim>\<open>cend()\<close> and
  \<^verbatim>\<open>std::equal\<close> reads the payload of the sentinel.
\<close>

theorem equality_of_empty_trees_undefined:
  "allocator (fst (snd two_fresh_trees)) = allocator (snd (snd two_fresh_trees)) \<and>
   tree_size (fst (snd two_fresh_trees)) = 0 \<and>
   tree_size (snd (snd two_fresh_trees)) = 0 \<and>
   tree_eq (fst two_fresh_trees) (fst (snd two_fresh_trees)) (snd (snd two_fresh_trees)) = None"
  by (simp add: eval_simps)

text \<open>
  C5 (\<^verbatim>\<open>at\<close> fails with KeyNotFound exactly when no entry has the key, and otherwise
  returns a reference to the stored value). For an asymmetric comparator and every
  well-formed tree, the empty one included, \<^verbatim>\<open>at(key)\<close> returns the node in in-order
  position whose key equals \<open>key\<close> together with its mapped value, and throws when there
  is none; it throws if and only if \<open>key\<close> is not among the keys of the tree. \<^verbatim>\<open>at\<close>
  is a \<^verbatim>\<open>const\<close> member: \<open>at_key\<close> returns no store and no tree.
\<close>

theorem at_key_finds_exactly_the_entries:
  assumes "asymp cmp" and "well_formed cmp t (heap w) s"
  shows "at_key cmp w t key =
      (case find (\<lambda>a. key_of (heap w) a = key) (inorder s) of
         None \<Rightarrow> Some (Inl KeyNotFound)
       | Some a \<Rightarrow> Some (Inr (Some a, snd (entry_of (heap w) a)))) \<and>
    ((at_key cmp w t key = Some (Inl KeyNotFound)) =
      (key \<notin> set (map (key_of (heap w)) (inorder s))))"
proof (cases "find (\<lambda>a. key_of (heap w) a = key) (inorder s)")
  case None
  then have "key \<notin> set (map (key_of (heap w)) (inorder s))"
    by (auto simp: find_None_iff)
  with at_key_absent[OF assms(2) this] None show ?thesis by simp
next
  case (Some a)
  then have a: "a \<in> set (inorder s)" "key_of (heap w) a = key"
    by (auto simp: find_Some_iff)
  from at_key_present[OF assms a(1)] a(2)
  have r: "at_key cmp w t key = Some (Inr (Some a, snd (entry_of (heap w) a)))"
    by simp
  from a have "key \<in> set (map (key_of (heap w)) (inorder s))"
    by force
  with r Some show ?thesis
    by simp
qed

theorem at_key_witness:
  "asymp ((<) :: int \<Rightarrow> int \<Rightarrow> bool) \<and>
   well_formed (<) (snd three_entries) (heap (fst three_entries)) three_entries_shape \<and>
   at_key (<) (fst three_entries) (snd three_entries) 3 = Some (Inr (Some 3, ''three'')) \<and>
   at_key (<) (fst three_entries) (snd three_entries) 5 = Some (Inl KeyNotFound)"
proof -
  have a: "asymp ((<) :: int \<Rightarrow> int \<Rightarrow> bool)"
    by simp
  have wf: "well_formed (<) (snd three_entries) (heap (fst three_entries)) three_entries_shape"
    by (simp add: eval_simps)
  have "at_key (<) (fst three_entries) (snd three_entries) 3 = Some (Inr (Some 3, ''three''))"
    using at_key_finds_exactly_the_entries [OF a wf, of 3]
    by (simp add: eval_simps)
  moreover
  have "at_key (<) (fst three_entries) (snd three_entries) 5 = Some (Inl KeyNotFound)"
    using at_key_finds_exactly_the_entries [OF a wf, of 5]
    by (simp add: eval_simps)
  ultimately show ?thesis
    using a wf by blast
qed

text \<open>
  C10 (membership is decided by \<^verbatim>\<open>operator==\<close> at the node where the descent stops).
  In any store, for any comparator: \<^verbatim>\<open>at\<close> returns the value at \<open>p\<close>, \<^verbatim>\<open>find\<close>
  returns an iterator to \<open>p\<close> and \<^verbatim>\<open>insert\<close> returns \<open>p\<close> with the flag false exactly
  when the descent of \<^verbatim>\<open>findNode\<close> stops at the payload node \<open>p\<close> and the key stored
  there is equal to the probe; \<^verbatim>\<open>operator[]\<close> returns \<open>p\<close> without touching store or
  tree in that case, and whenever it returns without allocating that is the case. With
  the comparator \<open>by_tens\<close>, which makes 1 and 2 equivalent, inserting 1 and then 2 attaches
  both: the tree has size 2 and the entries \<open>(1, a)\<close>, \<open>(2, b)\<close>.
\<close>

theorem membership_decided_by_equality:
  "((\<exists>v. at_key cmp w t k = Some (Inr (p, v))) = stops_at_equal cmp w t k p) \<and>
   ((find_key cmp w t k = Some (Some a)) = stops_at_equal cmp w t k (Some a)) \<and>
   ((\<exists>w' t'. insert_kv cmp w t (k, v) = Some (w', t', p, False)) = stops_at_equal cmp w t k p) \<and>
   (stops_at_equal cmp w t k p \<longrightarrow> index_key cmp d w t k = Some (w, t, p)) \<and>
   (index_key cmp d w t k = Some (w', t', p) \<and> fresh w' = fresh w
      \<longrightarrow> stops_at_equal cmp w t k p) \<and>
   map_option tree_size_of (run by_tens fresh_tree_by_tens [Insert 1 ''a'', Insert 2 ''b''])
     = Some 2 \<and>
   map_option (has_shape (Fork Tip 1 (Fork Tip 2 Tip)))
     (run by_tens fresh_tree_by_tens [Insert 1 ''a'', Insert 2 ''b'']) = Some True \<and>
   map_option (entries_in_order (Fork Tip 1 (Fork Tip 2 Tip)))
     (run by_tens fresh_tree_by_tens [Insert 1 ''a'', Insert 2 ''b''])
     = Some [(1, ''a''), (2, ''b'')] \<and>
   \<not> by_tens 1 2 \<and> \<not> by_tens 2 1"
proof -
  have "map_option tree_size_of
      (run by_tens fresh_tree_by_tens [Insert 1 ''a'', Insert 2 ''b'']) = Some 2"
    and "map_option (has_shape (Fork Tip 1 (Fork Tip 2 Tip)))
      (run by_tens fresh_tree_by_tens [Insert 1 ''a'', Insert 2 ''b'']) = Some True"
    and "map_option (entries_in_order (Fork Tip 1 (Fork Tip 2 Tip)))
      (run by_tens fresh_tree_by_tens [Insert 1 ''a'', Insert 2 ''b''])
      = Some [(1, ''a''), (2, ''b'')]"
    and "\<not> by_tens 1 2" and "\<not> by_tens 2 1"
    by (simp_all add: eval_simps)
  then show ?thesis
    using at_key_decided [of cmp w t k p] find_key_decided [of cmp w t k a]
      insert_kv_decided [of cmp w t k v p] index_key_existing [of cmp w t k p d]
      index_key_no_allocation [of cmp d w t k w' t' p]
    by blast
qed

theorem membership_witness:
  "stops_at_equal by_tens (fst one_entry_by_tens) (snd one_entry_by_tens) 1 (Some 1) \<and>
   index_key by_tens [] (fst one_entry_by_tens) (snd one_entry_by_tens) 1
     = Some (fst one_entry_by_tens, snd one_entry_by_tens, Some 1) \<and>
   at_key by_tens (fst one_entry_by_tens) (snd one_entry_by_tens) 2 = Some (Inl KeyNotFound)"
proof -
  have s: "stops_at_equal by_tens (fst one_entry_by_tens) (snd one_entry_by_tens) 1 (Some 1)"
    by (simp add: stops_at_equal_def eval_simps)
  with membership_decided_by_equality [of by_tens "fst one_entry_by_tens"
      "snd one_entry_by_tens" 1 "Some 1" 0 undefined "[]"]
  have "index_key by_tens [] (fst one_entry_by_tens) (snd one_entry_by_tens) 1
     = Some (fst one_entry_by_tens, snd one_entry_by_tens, Some 1)"
    by blast
  moreover
  have "at_key by_tens (fst one_entry_by_tens) (snd one_entry_by_tens) 2 = Some (Inl KeyNotFound)"
    by (simp add: eval_simps)
  ultimately show ?thesis
    using s by blast
qed

text \<open>
  C9 (\<^verbatim>\<open>successor\<close> and forward iteration). In a well-formed tree, for every payload
  node \<open>x\<close>: \<^verbatim>\<open>successor\<close> returns the leftmost node of the right subtree of \<open>x\<close> when
  there is one and otherwise the nearest ancestor that has \<open>x\<close> in its left subtree
  (\<open>next_node\<close>), which is the node after \<open>x\<close> in in-order position, and
  \<^verbatim>\<open>nullptr\<close>, the past-the-end marker, for the last node; \<^verbatim>\<open>begin()\<close> is the first
  node in order, and the traversal from \<^verbatim>\<open>begin()\<close> visits exactly the nodes in order,
  whose keys are strictly increasing under the comparator, and terminates at
  \<^verbatim>\<open>end()\<close>.
\<close>

theorem successor_is_in_order_successor:
  assumes "well_formed cmp t (heap w) s" and "x \<in> set (inorder s)"
  shows "successor t (heap w) (Some x) = next_node s None x \<and>
    (\<forall>xs ys. inorder s = xs @ x # ys \<longrightarrow>
       successor t (heap w) (Some x) = Some (case ys of [] \<Rightarrow> None | y # zs \<Rightarrow> Some y)) \<and>
    tree_begin w t = Some (Some (hd (inorder s))) \<and>
    iterate t (heap w) (Some (hd (inorder s))) (tree_end t) = Some (map Some (inorder s)) \<and>
    sorted_wrt cmp (map (key_of (heap w)) (inorder s))"
proof -
  from assms(1) have so: "sentinel_ok t (heap w)"
    and r: "repr (heap w) (nil t) (nil t) (root t) s"
    and d: "distinct (inorder s)" and i1: "I1 cmp (heap w) s"
    by (simp_all add: well_formed_def)
  from assms(2) obtain y ys where ne: "inorder s = y # ys"
    by (cases "inorder s") auto
  have 1: "successor t (heap w) (Some x) = next_node s None x"
    by (rule successor_next_node[OF sentinel_left[OF so] r d assms(2) successor_climb_root[OF so r]])
  have 2: "\<forall>xs ys. inorder s = xs @ x # ys \<longrightarrow>
       successor t (heap w) (Some x) = Some (case ys of [] \<Rightarrow> None | y # zs \<Rightarrow> Some y)"
    using successor_in_order[OF assms(1)] by blast
  have 3: "tree_begin w t = Some (Some (hd (inorder s)))"
    using tree_begin_first[OF assms(1) ne] ne by (simp add: tree_begin_def)
  have "inorder s = [] @ y # ys"
    using ne by simp
  from iterate_in_order[OF assms(1) this] ne
  have 4: "iterate t (heap w) (Some (hd (inorder s))) (tree_end t) = Some (map Some (inorder s))"
    by (simp add: tree_end_def)
  from 1 2 3 4 i1 show ?thesis
    by (simp add: I1_def)
qed

theorem successor_witness:
  "well_formed (<) (snd three_entries) (heap (fst three_entries)) three_entries_shape \<and>
   2 \<in> set (inorder three_entries_shape) \<and> 3 \<in> set (inorder three_entries_shape) \<and>
   successor (snd three_entries) (heap (fst three_entries)) (Some 2) = Some (Some 1) \<and>
   successor (snd three_entries) (heap (fst three_entries)) (Some 3) = Some None \<and>
   tree_begin (fst three_entries) (snd three_entries) = Some (Some 2) \<and>
   iterate (snd three_entries) (heap (fst three_entries)) (Some 2) (tree_end (snd three_entries))
     = Some [Some 2, Some 1, Some 3] \<and>
   map (key_of (heap (fst three_entries))) (inorder three_entries_shape) = [1, 2, 3]"
proof -
  have wf: "well_formed (<) (snd three_entries) (heap (fst three_entries)) three_entries_shape"
    by (simp add: eval_simps)
  have in2: "2 \<in> set (inorder three_entries_shape)" and in3: "3 \<in> set (inorder three_entries_shape)"
    by (simp_all add: three_entries_shape_def)
  have keys: "map (key_of (heap (fst three_entries))) (inorder three_entries_shape) = [1, 2, 3]"
    by (simp add: eval_simps)
  from successor_is_in_order_successor[OF wf in2]
  have "successor (snd three_entries) (heap (fst three_entries)) (Some 2) = Some (Some 1)"
    and "tree_begin (fst three_entries) (snd three_entries) = Some (Some 2)"
    and "iterate (snd three_entries) (heap (fst three_entries)) (Some 2)
       (tree_end (snd three_entries)) = Some [Some 2, Some 1, Some 3]"
    by (simp_all add: three_entries_shape_def)
  moreover
  from successor_is_in_order_successor[OF wf in3]
  have "successor (snd three_entries) (heap (fst three_entries)) (Some 3) = Some None"
    by (simp add: three_entries_shape_def)
  ultimately show ?thesis
    using wf in2 in3 keys by blast
qed

end
